theory Spec2Isabelle
  imports Main "HOL-Library.AList"
begin

section \<open>Shard routing over a consistent-hashing ring (src/database/sharding/main.py)\<close>

text \<open>
  Strings are byte strings: a Python \<open>str\<close> is represented by its UTF-8 encoding, so
  \<open>key.encode()\<close> is the identity and concatenation is list append.
  Python integers are unbounded: \<open>int\<close>; ring positions are the non-negative values of
  \<open>int(hexdigest, 16)\<close>: \<open>nat\<close>.
\<close>

subsection \<open>Exceptions\<close>

text \<open>
  Every exception the module can raise is a value. \<open>ValueError\<close> and \<open>HTTPException\<close>
  carry exactly the fields the source gives them (the message; the status code and the
  detail). \<open>KeyError\<close> is what a dictionary subscript raises on a missing key.

  What a SQLAlchemy session call raises is a \<open>thrown\<close> value: \<open>Exc m\<close> is an instance
  \<open>e\<close> of \<open>Exception\<close> with \<open>str(e) = m\<close>, which \<open>except Exception\<close> catches;
  \<open>BaseExc m\<close> is a \<open>BaseException\<close> that is not an \<open>Exception\<close> (a keyboard
  interrupt, a cancellation), which \<open>except Exception\<close> does not catch. When such a
  value leaves an endpoint it is \<open>SessionError m\<close> or \<open>SessionBaseError m\<close>.
\<close>

datatype exn =
    ValueError string
  | KeyError nat
  | HTTPException nat string
  | SessionError string
  | SessionBaseError string

datatype thrown = Exc string | BaseExc string

fun session_exn :: "thrown \<Rightarrow> exn" where
  "session_exn (Exc m) = SessionError m"
| "session_exn (BaseExc m) = SessionBaseError m"

subsection \<open>Formatting an integer: \<open>str(i)\<close> and the f-string \<open>{i}\<close>\<close>

definition digit_char :: "nat \<Rightarrow> char" where
  "digit_char d = char_of (48 + d)"

function str_nat :: "nat \<Rightarrow> string" where
  "str_nat n = (if n < 10 then [digit_char n] else str_nat (n div 10) @ [digit_char (n mod 10)])"
  by pat_completeness auto
termination
  by (relation "measure (\<lambda>n. n)") auto

declare str_nat.simps [simp del]

definition str_int :: "int \<Rightarrow> string" where
  "str_int i = (if i < 0 then CHR ''-'' # str_nat (nat (- i)) else str_nat (nat i))"

subsection \<open>The class \<open>ConsistentHashing\<close>\<close>

text \<open>
  \<open>self.ring\<close> is a Python dictionary. It is an association list in insertion order:
  \<open>ring[k] = v\<close> replaces the value in place when \<open>k\<close> is present and appends the pair
  otherwise, which is \<open>AList.update\<close>; \<open>ring[k]\<close> is \<open>map_of\<close>, raising \<open>KeyError\<close>
  on a missing key; \<open>ring.keys()\<close> is \<open>map fst\<close>.

  \<open>_hash\<close> is \<open>int(hashlib.md5(key.encode()).hexdigest(), 16)\<close>. The digest is a library
  function; it is the parameter \<open>H\<close> of every definition below, so that each theorem
  holds for MD5 as for any other function from byte strings to non-negative integers.
\<close>

type_synonym hash_fn = "string \<Rightarrow> nat"

type_synonym ring_dict = "(nat \<times> string) list"

record consistent_hashing =
  ring :: ring_dict
  nodes :: "string list"
  virtual_nodes :: int

definition hash_key :: "hash_fn \<Rightarrow> string \<Rightarrow> nat" where
  "hash_key H key = H key"

text \<open>The body of the inner loop of \<open>_build_ring\<close>, for \<open>node\<close> and \<open>i\<close>.\<close>

definition add_virtual_node :: "hash_fn \<Rightarrow> string \<Rightarrow> ring_dict \<Rightarrow> int \<Rightarrow> ring_dict" where
  "add_virtual_node H node r i =
     (let virtual_node = node @ ''#'' @ str_int i;
          hash_value = hash_key H virtual_node
      in AList.update hash_value node r)"

text \<open>\<open>range(self.virtual_nodes)\<close> is \<open>[0..v - 1]\<close>, empty when \<open>v \<le> 0\<close>.\<close>

definition py_range :: "int \<Rightarrow> int list" where
  "py_range v = [0..v - 1]"

definition build_ring :: "hash_fn \<Rightarrow> consistent_hashing \<Rightarrow> consistent_hashing" where
  "build_ring H ch =
     ch\<lparr>ring := foldl (\<lambda>r node. foldl (add_virtual_node H node) r (py_range (virtual_nodes ch)))
                    (ring ch) (nodes ch)\<rparr>"

text \<open>\<open>__init__\<close>: an empty dictionary, the two fields, then \<open>_build_ring\<close>.\<close>

definition init :: "hash_fn \<Rightarrow> string list \<Rightarrow> int \<Rightarrow> consistent_hashing" where
  "init H ns v = build_ring H \<lparr>ring = [], nodes = ns, virtual_nodes = v\<rparr>"

text \<open>\<open>self.ring[node_hash]\<close>.\<close>

definition ring_lookup :: "ring_dict \<Rightarrow> nat \<Rightarrow> exn + string" where
  "ring_lookup r p = (case map_of r p of None \<Rightarrow> Inl (KeyError p) | Some s \<Rightarrow> Inr s)"

text \<open>
  The \<open>for\<close> loop of \<open>get_node\<close> over the sorted keys: \<open>Some\<close> is the \<open>return\<close>
  inside the loop (or the exception of the subscript), \<open>None\<close> is the loop running to
  its end.
\<close>

fun scan_ring :: "ring_dict \<Rightarrow> nat \<Rightarrow> nat list \<Rightarrow> (exn + string) option" where
  "scan_ring r key_hash [] = None"
| "scan_ring r key_hash (node_hash # rest) =
     (if node_hash \<ge> key_hash then Some (ring_lookup r node_hash)
      else scan_ring r key_hash rest)"

text \<open>The builtin \<open>min\<close>, which raises \<open>ValueError\<close> on an empty sequence.\<close>

fun py_min :: "nat list \<Rightarrow> exn + nat" where
  "py_min [] = Inl (ValueError ''min() arg is an empty sequence'')"
| "py_min (x # xs) = Inr (fold min xs x)"

definition empty_ring_error :: exn where
  "empty_ring_error = ValueError ''No nodes in the ring''"

definition get_node :: "hash_fn \<Rightarrow> consistent_hashing \<Rightarrow> string \<Rightarrow> exn + string" where
  "get_node H ch key =
     (if ring ch = [] then Inl empty_ring_error
      else
        let key_hash = hash_key H key in
        case scan_ring (ring ch) key_hash (sort (map fst (ring ch))) of
          Some res \<Rightarrow> res
        | None \<Rightarrow>
            (case py_min (map fst (ring ch)) of
               Inl e \<Rightarrow> Inl e
             | Inr m \<Rightarrow> ring_lookup (ring ch) m))"

subsection \<open>The module-level session helper\<close>

text \<open>
  \<open>SESSION_MAKERS\<close> is a module-level dictionary keyed by shard name; only its keys
  matter to \<open>get_session\<close>, so it is the list \<open>makers\<close> of its keys. The session that
  \<open>SESSION_MAKERS[shard]()\<close> returns is identified by the shard it is bound to.
\<close>

definition get_session :: "string list \<Rightarrow> string \<Rightarrow> exn + string" where
  "get_session makers shard =
     (if shard \<notin> set makers then Inl (ValueError (''Unknown shard: '' @ shard))
      else Inr shard)"

subsection \<open>The endpoints \<open>create_user\<close> and \<open>get_user\<close>\<close>

record user =
  user_id :: int
  name :: string
  region :: string
  email :: string

text \<open>
  What the database behind a session does is not in the source: it is a parameter. For
  every shard, a \<open>session_script\<close> fixes the outcome of the session calls of the
  endpoints: \<open>add\<close>, \<open>commit\<close>, \<open>refresh\<close> and \<open>rollback\<close> return or raise
  (\<open>Some t\<close> and \<open>Inl t\<close>: the call raises \<open>t\<close>), and
  \<open>query(...).filter(...).first()\<close> raises, returns \<open>None\<close> or returns a row.
  \<open>close\<close> is the last statement of the \<open>finally\<close> clause of both endpoints and is
  taken to return, so that the outcome of an invocation is the one the statements before
  it have fixed. The calls made on the session are recorded in order, as a list of events.
\<close>

record session_script =
  add_raises :: "thrown option"
  commit_raises :: "thrown option"
  refresh_result :: "thrown + user"
  rollback_raises :: "thrown option"
  first_result :: "thrown + user option"

datatype event =
    Opened string
  | Add user
  | Commit
  | Refresh
  | Query int
  | Rollback
  | Close

text \<open>
  The \<open>try\<close> suite of \<open>create_user\<close>: the calls it makes, and either the row it
  returns or what the first failing call raises.
\<close>

definition create_try :: "session_script \<Rightarrow> user \<Rightarrow> event list \<times> (thrown + user)" where
  "create_try sc u =
     (case add_raises sc of
        Some t \<Rightarrow> ([Add u], Inl t)
      | None \<Rightarrow>
          (case commit_raises sc of
             Some t \<Rightarrow> ([Add u, Commit], Inl t)
           | None \<Rightarrow>
               (case refresh_result sc of
                  Inl t \<Rightarrow> ([Add u, Commit, Refresh], Inl t)
                | Inr db_user \<Rightarrow> ([Add u, Commit, Refresh], Inr db_user))))"

text \<open>
  The \<open>except Exception as e\<close> clause of \<open>create_user\<close>, entered with the message of
  \<open>e\<close>: it calls \<open>rollback\<close> first; if that raises, the statements after it are not
  reached and what it raised leaves the clause; otherwise the clause raises the HTTP
  error with status 500 and detail \<open>str(e)\<close>.
\<close>

definition create_except :: "session_script \<Rightarrow> string \<Rightarrow> event list \<times> exn" where
  "create_except sc m =
     (case rollback_raises sc of
        Some t \<Rightarrow> ([Rollback], session_exn t)
      | None \<Rightarrow> ([Rollback], HTTPException 500 m))"

text \<open>
  \<open>create_user\<close>: \<open>get_node\<close> and \<open>get_session\<close> are called before the \<open>try\<close>, so
  their exceptions leave the function with no session call made. After the \<open>try\<close>
  suite there are three paths: it returned; it raised an \<open>Exception\<close>, which the
  \<open>except\<close> clause handles; it raised another \<open>BaseException\<close>, which no clause
  handles and which propagates. The \<open>finally\<close> clause appends the close on each.
\<close>

definition create_user ::
  "hash_fn \<Rightarrow> consistent_hashing \<Rightarrow> string list \<Rightarrow> (string \<Rightarrow> session_script) \<Rightarrow> user
     \<Rightarrow> event list \<times> (exn + user)" where
  "create_user H consistent_hash makers db u =
     (case get_node H consistent_hash (str_int (user_id u)) of
        Inl e \<Rightarrow> ([], Inl e)
      | Inr shard \<Rightarrow>
          (case get_session makers shard of
             Inl e \<Rightarrow> ([], Inl e)
           | Inr session \<Rightarrow>
               (case create_try (db session) u of
                  (calls, Inr db_user) \<Rightarrow> (Opened shard # calls @ [Close], Inr db_user)
                | (calls, Inl (Exc m)) \<Rightarrow>
                    (case create_except (db session) m of
                       (handler_calls, e) \<Rightarrow>
                         (Opened shard # calls @ handler_calls @ [Close], Inl e))
                | (calls, Inl (BaseExc m)) \<Rightarrow>
                    (Opened shard # calls @ [Close], Inl (SessionBaseError m)))))"

text \<open>
  \<open>get_user\<close> has no \<open>except\<close> clause: what the query raises propagates, after the
  close of the \<open>finally\<close> clause.
\<close>

definition get_user ::
  "hash_fn \<Rightarrow> consistent_hashing \<Rightarrow> string list \<Rightarrow> (string \<Rightarrow> session_script) \<Rightarrow> int
     \<Rightarrow> event list \<times> (exn + user)" where
  "get_user H consistent_hash makers db uid =
     (case get_node H consistent_hash (str_int uid) of
        Inl e \<Rightarrow> ([], Inl e)
      | Inr shard \<Rightarrow>
          (case get_session makers shard of
             Inl e \<Rightarrow> ([], Inl e)
           | Inr session \<Rightarrow>
               (case first_result (db session) of
                  Inl t \<Rightarrow> ([Opened shard, Query uid, Close], Inl (session_exn t))
                | Inr None \<Rightarrow>
                    ([Opened shard, Query uid, Close], Inl (HTTPException 404 ''User not found''))
                | Inr (Some db_user) \<Rightarrow> ([Opened shard, Query uid, Close], Inr db_user))))"

text \<open>The shard on which an invocation opened its session, if it opened one.\<close>

fun opened_shard :: "event list \<Rightarrow> string option" where
  "opened_shard (Opened s # _) = Some s"
| "opened_shard _ = None"

subsection \<open>The specification's description of ring construction\<close>

text \<open>
  The insertions the specification lists: for each shard \<open>s\<close> in the given order and each
  \<open>i\<close> in \<open>[0, v)\<close>, the pair of \<open>hash(s ++ "#" ++ i)\<close> and \<open>s\<close>.
\<close>

definition spec_insertions :: "hash_fn \<Rightarrow> string list \<Rightarrow> int \<Rightarrow> (nat \<times> string) list" where
  "spec_insertions H ns v =
     concat (map (\<lambda>s. map (\<lambda>i. (H (s @ ''#'' @ str_int i), s)) [0..v - 1]) ns)"

text \<open>
  The number of collisions in a sequence of positions: the insertions whose position an
  earlier insertion has already produced (\<open>seen\<close> holds the earlier positions).
\<close>

fun count_collisions :: "nat list \<Rightarrow> nat list \<Rightarrow> nat" where
  "count_collisions seen [] = 0"
| "count_collisions seen (p # ps) =
     (if p \<in> set seen then 1 else 0) + count_collisions (p # seen) ps"

definition spec_collisions :: "hash_fn \<Rightarrow> string list \<Rightarrow> int \<Rightarrow> nat" where
  "spec_collisions H ns v = count_collisions [] (map fst (spec_insertions H ns v))"

text \<open>A sequence of dictionary stores, in order.\<close>

definition store_all :: "ring_dict \<Rightarrow> (nat \<times> string) list \<Rightarrow> ring_dict" where
  "store_all r xs = foldl (\<lambda>r (p, s). AList.update p s r) r xs"

subsection \<open>Concrete instances\<close>

text \<open>
  A small hash function, a ring, a session table and scripts on which the theorems
  below are instantiated.
\<close>

definition byte_sum :: hash_fn where
  "byte_sum k = sum_list (map of_char k) mod 16"

definition example_ring :: consistent_hashing where
  "example_ring = init byte_sum [''shard_1'', ''shard_2''] 2"

definition example_makers :: "string list" where
  "example_makers = [''shard_1'', ''shard_2'', ''shard_3'']"

definition example_user :: "int \<Rightarrow> user" where
  "example_user k = \<lparr>user_id = k, name = ''Ann'', region = ''eu'', email = ''ann@example.org''\<rparr>"

definition commit_fails :: "string \<Rightarrow> session_script" where
  "commit_fails shard =
     \<lparr>add_raises = None, commit_raises = Some (Exc ''duplicate key''),
      refresh_result = Inr (example_user 42), rollback_raises = None,
      first_result = Inr None\<rparr>"

definition rollback_fails :: "string \<Rightarrow> session_script" where
  "rollback_fails shard =
     \<lparr>add_raises = None, commit_raises = Some (Exc ''duplicate key''),
      refresh_result = Inr (example_user 42), rollback_raises = Some (Exc ''connection lost''),
      first_result = Inr None\<rparr>"

definition interrupted :: "string \<Rightarrow> session_script" where
  "interrupted shard =
     \<lparr>add_raises = None, commit_raises = Some (BaseExc ''KeyboardInterrupt''),
      refresh_result = Inr (example_user 42), rollback_raises = None,
      first_result = Inl (BaseExc ''KeyboardInterrupt'')\<rparr>"

definition row_stored :: "string \<Rightarrow> session_script" where
  "row_stored shard =
     \<lparr>add_raises = None, commit_raises = None,
      refresh_result = Inr (example_user 42), rollback_raises = None,
      first_result = Inr (Some (example_user 42))\<rparr>"

section \<open>Lemmas on the ring lookup\<close>

lemma ring_lookup_stored:
  "p \<in> fst ` set r \<Longrightarrow> \<exists>s. ring_lookup r p = Inr s \<and> map_of r p = Some s"
proof -
  assume "p \<in> fst ` set r"
  then obtain s where "map_of r p = Some s"
    by (metis domD dom_map_of_conv_image_fst)
  then show ?thesis by (simp add: ring_lookup_def)
qed

lemma scan_ring_None: "scan_ring r h ps = None \<longleftrightarrow> (\<forall>q \<in> set ps. q < h)"
  by (induction ps) auto

lemma scan_ring_Some:
  "sorted ps \<Longrightarrow> scan_ring r h ps = Some res \<Longrightarrow>
     \<exists>p \<in> set ps. h \<le> p \<and> (\<forall>q \<in> set ps. h \<le> q \<longrightarrow> p \<le> q) \<and> res = ring_lookup r p"
proof (induction ps)
  case Nil
  then show ?case by simp
next
  case (Cons a ps)
  show ?case
  proof (cases "h \<le> a")
    case True
    with Cons.prems show ?thesis by auto
  next
    case False
    with Cons.prems have "scan_ring r h ps = Some res" and "sorted ps" by auto
    with Cons.IH obtain p where
      "p \<in> set ps" "h \<le> p" "\<forall>q \<in> set ps. h \<le> q \<longrightarrow> p \<le> q" "res = ring_lookup r p"
      by blast
    with False show ?thesis by auto
  qed
qed

lemma py_min_Min: "xs \<noteq> [] \<Longrightarrow> py_min xs = Inr (Min (set xs))"
proof (cases xs)
  case Nil
  assume "xs \<noteq> []"
  with Nil show ?thesis by simp
next
  case (Cons a as)
  have "fold min as a = Min (set (a # as))" by (simp only: Min.set_eq_fold)
  with Cons show ?thesis by simp
qed

lemma get_node_nonempty:
  assumes "ring ch \<noteq> []"
  shows "\<exists>p s. get_node H ch key = Inr s \<and> map_of (ring ch) p = Some s \<and>
           p \<in> fst ` set (ring ch) \<and>
           (if \<exists>q \<in> fst ` set (ring ch). H key \<le> q
            then H key \<le> p \<and> (\<forall>q \<in> fst ` set (ring ch). H key \<le> q \<longrightarrow> p \<le> q)
            else \<forall>q \<in> fst ` set (ring ch). p \<le> q)"
proof (cases "scan_ring (ring ch) (H key) (sort (map fst (ring ch)))")
  case None
  let ?ks = "map fst (ring ch)"
  from None have small: "\<forall>q \<in> fst ` set (ring ch). q < H key"
    by (simp add: scan_ring_None)
  from assms have ne: "?ks \<noteq> []" by simp
  then have m: "py_min ?ks = Inr (Min (set ?ks))" by (rule py_min_Min)
  have mem: "Min (set ?ks) \<in> set ?ks" using ne by (intro Min_in) simp_all
  then have mem': "Min (set ?ks) \<in> fst ` set (ring ch)" by simp
  from ring_lookup_stored [OF mem'] obtain s where
    s: "ring_lookup (ring ch) (Min (set ?ks)) = Inr s" "map_of (ring ch) (Min (set ?ks)) = Some s"
    by blast
  have least: "\<forall>q \<in> fst ` set (ring ch). Min (set ?ks) \<le> q" by simp
  have no: "\<not> (\<exists>q \<in> fst ` set (ring ch). H key \<le> q)" using small by force
  have "get_node H ch key = Inr s"
    using assms None m s by (simp add: get_node_def hash_key_def)
  with s mem' least no show ?thesis by (intro exI [of _ "Min (set ?ks)"] exI [of _ s]) simp
next
  case (Some res)
  let ?ps = "sort (map fst (ring ch))"
  have "sorted ?ps" by simp
  from scan_ring_Some [OF this Some] obtain p where
    p: "p \<in> set ?ps" "H key \<le> p" "\<forall>q \<in> set ?ps. H key \<le> q \<longrightarrow> p \<le> q"
       "res = ring_lookup (ring ch) p"
    by blast
  from p(1) have mem: "p \<in> fst ` set (ring ch)" by simp
  from ring_lookup_stored [OF mem] obtain s where
    s: "ring_lookup (ring ch) p = Inr s" "map_of (ring ch) p = Some s" by blast
  have ex: "\<exists>q \<in> fst ` set (ring ch). H key \<le> q" using mem p(2) by blast
  have least: "\<forall>q \<in> fst ` set (ring ch). H key \<le> q \<longrightarrow> p \<le> q" using p(3) by simp
  have "get_node H ch key = Inr s"
    using assms Some p(4) s by (simp add: get_node_def hash_key_def)
  with s mem ex least p(2) show ?thesis by (intro exI [of _ p] exI [of _ s]) simp
qed

section \<open>Lemmas on ring construction\<close>

lemma store_all_Nil: "store_all r [] = r"
  by (simp add: store_all_def)

lemma store_all_Cons: "store_all r ((p, s) # xs) = store_all (AList.update p s r) xs"
  by (simp add: store_all_def)

lemma store_all_append: "store_all r (xs @ ys) = store_all (store_all r xs) ys"
  by (simp add: store_all_def)

lemma inner_loop_store_all:
  "foldl (add_virtual_node H node) r is =
     store_all r (map (\<lambda>i. (H (node @ ''#'' @ str_int i), node)) is)"
  by (induction "is" arbitrary: r)
     (simp_all add: store_all_Nil store_all_Cons add_virtual_node_def hash_key_def)

lemma outer_loop_store_all:
  "foldl (\<lambda>r node. foldl (add_virtual_node H node) r (py_range v)) r ns =
     store_all r (spec_insertions H ns v)"
proof (induction ns arbitrary: r)
  case Nil
  show ?case by (simp add: spec_insertions_def store_all_Nil)
next
  case (Cons n ns)
  have "spec_insertions H (n # ns) v =
          map (\<lambda>i. (H (n @ ''#'' @ str_int i), n)) (py_range v) @ spec_insertions H ns v"
    by (simp add: spec_insertions_def py_range_def)
  moreover have "foldl (\<lambda>r node. foldl (add_virtual_node H node) r (py_range v)) r (n # ns) =
      store_all (foldl (add_virtual_node H n) r (py_range v)) (spec_insertions H ns v)"
    by (simp only: foldl_Cons Cons.IH)
  ultimately show ?case
    by (simp add: inner_loop_store_all store_all_append)
qed

lemma ring_init: "ring (init H ns v) = store_all [] (spec_insertions H ns v)"
  by (simp add: init_def build_ring_def outer_loop_store_all)

lemma map_of_store_all: "map_of (store_all r xs) = map_of r ++ map_of (rev xs)"
proof (induction xs arbitrary: r)
  case Nil
  show ?case by (simp add: store_all_Nil)
next
  case (Cons x xs)
  obtain p s where x: "x = (p, s)" by (cases x)
  have "map_of (store_all r (x # xs)) = map_of (AList.update p s r) ++ map_of (rev xs)"
    by (simp add: x store_all_Cons Cons.IH)
  also have "\<dots> = (map_of r ++ [p \<mapsto> s]) ++ map_of (rev xs)"
    by (simp add: update_conv')
  also have "\<dots> = map_of r ++ map_of (rev (x # xs))"
    by (simp add: x)
  finally show ?case .
qed

lemma keys_store_all: "fst ` set (store_all r xs) = fst ` set r \<union> fst ` set xs"
proof -
  have "dom (map_of (store_all r xs)) = dom (map_of r ++ map_of (rev xs))"
    by (simp only: map_of_store_all)
  then show ?thesis by (simp add: dom_map_of_conv_image_fst Un_commute)
qed

lemma distinct_store_all:
  "distinct (map fst r) \<Longrightarrow> distinct (map fst (store_all r xs))"
proof (induction xs arbitrary: r)
  case Nil
  then show ?case by (simp add: store_all_Nil)
next
  case (Cons x xs)
  obtain p s where x: "x = (p, s)" by (cases x)
  from Cons.prems have "distinct (map fst (AList.update p s r))"
    by (simp add: distinct_update)
  then show ?case by (simp add: x store_all_Cons Cons.IH)
qed

lemma count_collisions_seen:
  "set seen = set seen' \<Longrightarrow> count_collisions seen ps = count_collisions seen' ps"
proof (induction ps arbitrary: seen seen')
  case Nil
  show ?case by simp
next
  case (Cons p ps)
  from Cons.prems have "set (p # seen) = set (p # seen')" by simp
  then have "count_collisions (p # seen) ps = count_collisions (p # seen') ps"
    by (rule Cons.IH)
  with Cons.prems show ?case by simp
qed

lemma length_dict_store:
  "length (AList.update k v al) = (if k \<in> fst ` set al then length al else Suc (length al))"
  by (induction al) auto

lemma length_store_all:
  "length (store_all r xs) + count_collisions (map fst r) (map fst xs) = length r + length xs"
proof (induction xs arbitrary: r)
  case Nil
  show ?case by (simp add: store_all_Nil)
next
  case (Cons x xs)
  obtain p s where x: "x = (p, s)" by (cases x)
  let ?r = "AList.update p s r"
  have "set (map fst ?r) = set (p # map fst r)"
    by (auto simp: update_keys)
  then have seen: "count_collisions (map fst ?r) (map fst xs) =
                   count_collisions (p # map fst r) (map fst xs)"
    by (rule count_collisions_seen)
  have len: "length ?r = (if p \<in> fst ` set r then length r else Suc (length r))"
    by (rule length_dict_store)
  from Cons.IH [of ?r] seen
  have "length (store_all ?r xs) + count_collisions (p # map fst r) (map fst xs)
          = length ?r + length xs"
    by simp
  with len show ?case by (simp add: x store_all_Cons)
qed

lemma length_spec_insertions: "length (spec_insertions H ns v) = length ns * nat v"
  by (induction ns) (simp_all add: spec_insertions_def)


lemma spec_insertions_shards: "snd ` set (spec_insertions H ns v) \<subseteq> set ns"
  by (auto simp: spec_insertions_def)

lemma ring_init_nonempty:
  assumes "ns \<noteq> []" and "1 \<le> v"
  shows "ring (init H ns v) \<noteq> []"
proof -
  have "length (spec_insertions H ns v) = length ns * nat v"
    by (rule length_spec_insertions)
  moreover from assms have "0 < length ns * nat v" by simp
  ultimately have "spec_insertions H ns v \<noteq> []" by auto
  then have "fst ` set (store_all [] (spec_insertions H ns v)) \<noteq> {}"
    by (simp add: keys_store_all)
  then show ?thesis by (auto simp: ring_init)
qed

lemma ring_init_values:
  assumes "map_of (ring (init H ns v)) p = Some s"
  shows "s \<in> set ns"
proof -
  from assms have "map_of (rev (spec_insertions H ns v)) p = Some s"
    by (simp add: ring_init map_of_store_all)
  then have "(p, s) \<in> set (spec_insertions H ns v)"
    by (auto dest: map_of_SomeD)
  then have "s \<in> snd ` set (spec_insertions H ns v)" by force
  with spec_insertions_shards show ?thesis by blast
qed

section \<open>Lemmas on the endpoints\<close>

lemma create_try_cases:
  obtains (returns) calls db_user where
      "create_try sc u = (calls, Inr db_user)" "Rollback \<notin> set calls" "Close \<notin> set calls"
      "add_raises sc = None" "commit_raises sc = None" "refresh_result sc = Inr db_user"
    | (raises) calls t where
      "create_try sc u = (calls, Inl t)" "Rollback \<notin> set calls" "Close \<notin> set calls"
      "add_raises sc = Some t \<or>
       add_raises sc = None \<and> commit_raises sc = Some t \<or>
       add_raises sc = None \<and> commit_raises sc = None \<and> refresh_result sc = Inl t"
proof (cases "add_raises sc")
  case (Some t)
  then have "create_try sc u = ([Add u], Inl t)" by (simp add: create_try_def)
  with Some show ?thesis by (intro raises [of "[Add u]" t]) simp_all
next
  case None
  note a = None
  show ?thesis
  proof (cases "commit_raises sc")
    case (Some t)
    with a have "create_try sc u = ([Add u, Commit], Inl t)" by (simp add: create_try_def)
    with a Some show ?thesis by (intro raises [of "[Add u, Commit]" t]) simp_all
  next
    case None
    note c = None
    show ?thesis
    proof (cases "refresh_result sc")
      case (Inl t)
      with a c have "create_try sc u = ([Add u, Commit, Refresh], Inl t)"
        by (simp add: create_try_def)
      with a c Inl show ?thesis by (intro raises [of "[Add u, Commit, Refresh]" t]) simp_all
    next
      case (Inr d)
      with a c have "create_try sc u = ([Add u, Commit, Refresh], Inr d)"
        by (simp add: create_try_def)
      with a c Inr show ?thesis by (intro returns [of "[Add u, Commit, Refresh]" d]) simp_all
    qed
  qed
qed

lemma create_except_calls: "fst (create_except sc m) = [Rollback]"
  by (simp add: create_except_def split: option.splits)


lemma create_user_returns:
  assumes "get_node H ch (str_int (user_id u)) = Inr shard" and "shard \<in> set makers"
    and "create_try (db shard) u = (calls, Inr db_user)"
  shows "create_user H ch makers db u = (Opened shard # calls @ [Close], Inr db_user)"
  using assms by (simp add: create_user_def get_session_def)

lemma create_user_handled:
  assumes "get_node H ch (str_int (user_id u)) = Inr shard" and "shard \<in> set makers"
    and "create_try (db shard) u = (calls, Inl (Exc m))"
  shows "create_user H ch makers db u =
           (Opened shard # calls @ [Rollback, Close], Inl (snd (create_except (db shard) m)))"
proof -
  obtain hc e where ce: "create_except (db shard) m = (hc, e)" by (cases "create_except (db shard) m")
  then have "hc = [Rollback]" using create_except_calls [of "db shard" m] by simp
  with ce assms show ?thesis by (simp add: create_user_def get_session_def)
qed

lemma create_user_unhandled:
  assumes "get_node H ch (str_int (user_id u)) = Inr shard" and "shard \<in> set makers"
    and "create_try (db shard) u = (calls, Inl (BaseExc m))"
  shows "create_user H ch makers db u =
           (Opened shard # calls @ [Close], Inl (SessionBaseError m))"
  using assms by (simp add: create_user_def get_session_def)

lemma create_user_opened:
  assumes "get_node H ch (str_int (user_id u)) = Inr shard" and "shard \<in> set makers"
  shows "\<exists>calls r. create_user H ch makers db u = (Opened shard # calls @ [Close], r) \<and>
           Close \<notin> set calls"
proof (cases rule: create_try_cases [of "db shard" u])
  case (returns calls db_user)
  from assms returns(1)
  have "create_user H ch makers db u = (Opened shard # calls @ [Close], Inr db_user)"
    by (rule create_user_returns)
  with returns(3) show ?thesis by blast
next
  case (raises calls t)
  show ?thesis
  proof (cases t)
    case (Exc m)
    with raises(1) have "create_try (db shard) u = (calls, Inl (Exc m))" by simp
    with assms
    have "create_user H ch makers db u =
            (Opened shard # calls @ [Rollback, Close], Inl (snd (create_except (db shard) m)))"
      by (rule create_user_handled)
    with raises(3)
    have "create_user H ch makers db u =
            (Opened shard # (calls @ [Rollback]) @ [Close],
             Inl (snd (create_except (db shard) m))) \<and>
          Close \<notin> set (calls @ [Rollback])"
      by simp
    then show ?thesis by blast
  next
    case (BaseExc m)
    with raises(1) have "create_try (db shard) u = (calls, Inl (BaseExc m))" by simp
    with assms
    have "create_user H ch makers db u = (Opened shard # calls @ [Close], Inl (SessionBaseError m))"
      by (rule create_user_unhandled)
    with raises(3) show ?thesis by blast
  qed
qed

lemma create_user_unopened:
  assumes "get_node H ch (str_int (user_id u)) = Inl e \<or>
           (\<exists>shard. get_node H ch (str_int (user_id u)) = Inr shard \<and> shard \<notin> set makers)"
  shows "fst (create_user H ch makers db u) = []"
  using assms by (auto simp: create_user_def get_session_def)

lemma get_user_opened:
  assumes "get_node H ch (str_int uid) = Inr shard" and "shard \<in> set makers"
  shows "\<exists>r. get_user H ch makers db uid = ([Opened shard, Query uid, Close], r)"
proof (cases "first_result (db shard)")
  case (Inl m)
  with assms show ?thesis by (simp add: get_user_def get_session_def)
next
  case (Inr row)
  with assms show ?thesis by (cases row) (simp_all add: get_user_def get_session_def)
qed

lemma get_user_unopened:
  assumes "get_node H ch (str_int uid) = Inl e \<or>
           (\<exists>shard. get_node H ch (str_int uid) = Inr shard \<and> shard \<notin> set makers)"
  shows "fst (get_user H ch makers db uid) = []"
  using assms by (auto simp: get_user_def get_session_def)

section \<open>Resolution of a key on the ring\<close>

text \<open>
  C1: on a non-empty ring, \<open>get_node\<close> returns the shard stored at the smallest position
  that is greater than or equal to the hash of the key; when no stored position is greater
  than or equal to the hash, it returns the shard stored at the minimum position.
\<close>

theorem get_node_successor:
  assumes "ring ch \<noteq> []"
  shows "\<exists>p s. get_node H ch key = Inr s \<and> map_of (ring ch) p = Some s \<and>
           p \<in> fst ` set (ring ch) \<and>
           (if \<exists>q \<in> fst ` set (ring ch). H key \<le> q
            then H key \<le> p \<and> (\<forall>q \<in> fst ` set (ring ch). H key \<le> q \<longrightarrow> p \<le> q)
            else \<forall>q \<in> fst ` set (ring ch). p \<le> q)"
  using assms by (rule get_node_nonempty)

theorem get_node_successor_witness:
  "ring example_ring \<noteq> [] \<and>
   (\<exists>p s. get_node byte_sum example_ring ''42'' = Inr s \<and> map_of (ring example_ring) p = Some s \<and>
      p \<in> fst ` set (ring example_ring) \<and>
      (if \<exists>q \<in> fst ` set (ring example_ring). byte_sum ''42'' \<le> q
       then byte_sum ''42'' \<le> p \<and>
            (\<forall>q \<in> fst ` set (ring example_ring). byte_sum ''42'' \<le> q \<longrightarrow> p \<le> q)
       else \<forall>q \<in> fst ` set (ring example_ring). p \<le> q))"
proof -
  have ne: "ring example_ring \<noteq> []" by code_simp
  from get_node_successor [OF ne, of byte_sum "''42''"] ne show ?thesis by blast
qed

text \<open>
  C8: \<open>get_node\<close> raises exactly when the ring holds no position, and what it raises
  then is the empty-ring error.
\<close>

theorem get_node_fails_iff_empty:
  "((\<exists>e. get_node H ch key = Inl e) \<longleftrightarrow> ring ch = []) \<and>
   (get_node H ch key = Inl empty_ring_error \<longleftrightarrow> ring ch = [])"
proof (cases "ring ch = []")
  case True
  then show ?thesis by (simp add: get_node_def)
next
  case False
  from get_node_nonempty [OF False, of H key] obtain s where "get_node H ch key = Inr s"
    by blast
  with False show ?thesis by simp
qed

theorem get_node_fails_iff_empty_witness:
  "get_node byte_sum (init byte_sum [] 100) ''42'' = Inl empty_ring_error \<and>
   get_node byte_sum example_ring ''42'' \<noteq> Inl empty_ring_error"
proof -
  have e: "ring (init byte_sum [] 100) = []" by code_simp
  have ne: "ring example_ring \<noteq> []" by code_simp
  from get_node_fails_iff_empty [of byte_sum "init byte_sum [] 100" "''42''"] e
       get_node_fails_iff_empty [of byte_sum example_ring "''42''"] ne
  show ?thesis by simp
qed

section \<open>Ring construction\<close>

text \<open>
  C2: a ring built from a non-empty shard list with at least one virtual node per shard
  resolves every key, and to one of the given shards.
\<close>

theorem get_node_configured:
  assumes "ns \<noteq> []" and "1 \<le> v"
  shows "\<exists>s. get_node H (init H ns v) key = Inr s \<and> s \<in> set ns"
proof -
  from assms have "ring (init H ns v) \<noteq> []" by (rule ring_init_nonempty)
  from get_node_nonempty [OF this, of H key] obtain p s where
    "get_node H (init H ns v) key = Inr s" "map_of (ring (init H ns v)) p = Some s"
    by blast
  then show ?thesis using ring_init_values by blast
qed

theorem get_node_configured_witness:
  "[''shard_1'', ''shard_2''] \<noteq> [] \<and> (1::int) \<le> 2 \<and>
   get_node byte_sum example_ring ''42'' = Inr ''shard_2'' \<and>
   ''shard_2'' \<in> set [''shard_1'', ''shard_2'']"
proof -
  have r: "get_node byte_sum example_ring ''42'' = Inr ''shard_2''" by code_simp
  from get_node_configured [of "[''shard_1'', ''shard_2'']" 2 byte_sum "''42''"] r
  show ?thesis by (simp add: example_ring_def)
qed

text \<open>
  C3: the ring built by the constructor is the result of storing the listed insertions
  in order. Every position maps to the shard of the last insertion at that position
  (\<open>map_of\<close> of the reversed list finds the last pair), no position is stored twice, and
  the number of stored positions is the number of insertions, \<open>N * V\<close>, minus the
  number of collisions (\<open>nat v\<close> is \<open>v\<close> for the non-negative counts the claim speaks
  of).
\<close>

theorem build_ring_last_write_wins:
  "ring (init H ns v) = store_all [] (spec_insertions H ns v) \<and>
   map_of (ring (init H ns v)) = map_of (rev (spec_insertions H ns v)) \<and>
   distinct (map fst (ring (init H ns v))) \<and>
   length (ring (init H ns v)) + spec_collisions H ns v = length ns * nat v"
proof -
  have "map_of (ring (init H ns v)) = map_of (rev (spec_insertions H ns v))"
    by (simp add: ring_init map_of_store_all)
  moreover have "distinct (map fst (ring (init H ns v)))"
    by (simp add: ring_init distinct_store_all)
  moreover have "length (ring (init H ns v)) + spec_collisions H ns v = length ns * nat v"
    using length_store_all [of "[]" "spec_insertions H ns v"]
    by (simp add: ring_init spec_collisions_def length_spec_insertions)
  ultimately show ?thesis by (simp add: ring_init)
qed

theorem build_ring_last_write_wins_witness:
  "ring example_ring = [(5, ''shard_1''), (6, ''shard_2''), (7, ''shard_2'')] \<and>
   spec_insertions byte_sum [''shard_1'', ''shard_2''] 2 =
     [(5, ''shard_1''), (6, ''shard_1''), (6, ''shard_2''), (7, ''shard_2'')] \<and>
   spec_collisions byte_sum [''shard_1'', ''shard_2''] 2 = 1 \<and>
   length (ring example_ring) + 1 = 2 * 2"
proof -
  have i: "spec_insertions byte_sum [''shard_1'', ''shard_2''] 2 =
     [(5, ''shard_1''), (6, ''shard_1''), (6, ''shard_2''), (7, ''shard_2'')]"
    by code_simp
  have c: "spec_collisions byte_sum [''shard_1'', ''shard_2''] 2 = 1"
    by (simp add: spec_collisions_def i)
  from build_ring_last_write_wins [of byte_sum "[''shard_1'', ''shard_2'']" 2] i c
  show ?thesis by (simp add: example_ring_def store_all_def)
qed

text \<open>
  C10: with a virtual-node count of zero or less the constructor returns an object whose
  ring is empty, whatever the node list, and every \<open>get_node\<close> on it raises the
  empty-ring error.
\<close>

theorem init_without_virtual_nodes:
  assumes "v \<le> 0"
  shows "ring (init H ns v) = [] \<and> nodes (init H ns v) = ns \<and>
         virtual_nodes (init H ns v) = v \<and>
         (\<forall>key. get_node H (init H ns v) key = Inl empty_ring_error)"
proof -
  from assms have "spec_insertions H ns v = []"
    by (simp add: spec_insertions_def)
  then have r: "ring (init H ns v) = []"
    by (simp add: ring_init store_all_Nil)
  then have "\<forall>key. get_node H (init H ns v) key = Inl empty_ring_error"
    by (simp add: get_node_def)
  with r show ?thesis by (simp add: init_def build_ring_def)
qed

theorem init_without_virtual_nodes_witness:
  "(0::int) \<le> 0 \<and> ring (init byte_sum [''shard_1'', ''shard_2'', ''shard_3''] 0) = [] \<and>
   get_node byte_sum (init byte_sum [''shard_1'', ''shard_2'', ''shard_3''] 0) ''42''
     = Inl (ValueError ''No nodes in the ring'')"
  using init_without_virtual_nodes [of 0 byte_sum "[''shard_1'', ''shard_2'', ''shard_3'']"]
  by (simp add: empty_ring_error_def)

section \<open>The endpoints\<close>

text \<open>
  C4: for every primary key, \<open>create_user\<close> and a later \<open>get_user\<close> against the same
  ring open their session on the same shard (or both open none), whatever the databases
  do in between; that shard is the one \<open>get_node\<close> returns for \<open>str\<close> of the key.
\<close>

theorem create_get_same_shard:
  "opened_shard (fst (create_user H ch makers db u)) =
     opened_shard (fst (get_user H ch makers db' (user_id u))) \<and>
   opened_shard (fst (create_user H ch makers db u)) =
     (case get_node H ch (str_int (user_id u)) of
        Inl e \<Rightarrow> None
      | Inr shard \<Rightarrow> if shard \<in> set makers then Some shard else None)"
proof (cases "get_node H ch (str_int (user_id u))")
  case (Inl e)
  then have "fst (create_user H ch makers db u) = []"
    and "fst (get_user H ch makers db' (user_id u)) = []"
    by (simp_all add: create_user_unopened get_user_unopened)
  with Inl show ?thesis by simp
next
  case (Inr shard)
  show ?thesis
  proof (cases "shard \<in> set makers")
    case True
    from create_user_opened [OF Inr True] obtain calls r where
      "create_user H ch makers db u = (Opened shard # calls @ [Close], r)" by blast
    moreover from get_user_opened [OF Inr True] obtain r' where
      "get_user H ch makers db' (user_id u) = ([Opened shard, Query (user_id u), Close], r')"
      by blast
    ultimately show ?thesis using Inr True by simp
  next
    case False
    with Inr have "fst (create_user H ch makers db u) = []"
      and "fst (get_user H ch makers db' (user_id u)) = []"
      by (simp_all add: create_user_unopened get_user_unopened)
    with Inr False show ?thesis by simp
  qed
qed

theorem create_get_same_shard_witness:
  "opened_shard (fst (create_user byte_sum example_ring example_makers row_stored (example_user 42)))
     = Some ''shard_2'' \<and>
   opened_shard (fst (get_user byte_sum example_ring example_makers row_stored 42))
     = Some ''shard_2''"
proof -
  have u: "user_id (example_user 42) = 42" by (simp add: example_user_def)
  have c: "opened_shard (fst (create_user byte_sum example_ring example_makers row_stored
             (example_user 42))) = Some ''shard_2''"
    by code_simp
  from create_get_same_shard [of byte_sum example_ring example_makers row_stored
         "example_user 42" row_stored] c u
  show ?thesis by simp
qed

text \<open>
  C6: in every \<open>create_user\<close> and every \<open>get_user\<close> invocation whose session is opened
  (the shard is resolved and is a key of the session table), \<open>close\<close> is called exactly
  once, as the last call, on every path: the \<open>try\<close> suite returns, it raises an
  \<open>Exception\<close> and \<open>rollback\<close> returns, it raises an \<open>Exception\<close> and \<open>rollback\<close>
  raises too, or it raises a \<open>BaseException\<close> that the handler does not catch.
\<close>

theorem session_closed_once:
  assumes "get_node H ch (str_int (user_id u)) = Inr shard" and "shard \<in> set makers"
  shows "count_list (fst (create_user H ch makers db u)) Close = 1 \<and>
         last (fst (create_user H ch makers db u)) = Close \<and>
         count_list (fst (get_user H ch makers db (user_id u))) Close = 1 \<and>
         last (fst (get_user H ch makers db (user_id u))) = Close"
proof -
  from create_user_opened [OF assms] obtain calls r where
    c: "create_user H ch makers db u = (Opened shard # calls @ [Close], r)"
       "Close \<notin> set calls" by blast
  from c(2) have "count_list calls Close = 0" by (simp add: count_list_0_iff)
  with c(1) have 1: "count_list (fst (create_user H ch makers db u)) Close = 1 \<and>
         last (fst (create_user H ch makers db u)) = Close"
    by simp
  from get_user_opened [OF assms] obtain r' where
    "get_user H ch makers db (user_id u) = ([Opened shard, Query (user_id u), Close], r')"
    by blast
  then have 2: "count_list (fst (get_user H ch makers db (user_id u))) Close = 1 \<and>
         last (fst (get_user H ch makers db (user_id u))) = Close"
    by simp
  from 1 2 show ?thesis by simp
qed

theorem session_closed_once_witness:
  "get_node byte_sum example_ring (str_int (user_id (example_user 42))) = Inr ''shard_2'' \<and>
   ''shard_2'' \<in> set example_makers \<and>
   fst (create_user byte_sum example_ring example_makers row_stored (example_user 42)) =
     [Opened ''shard_2'', Add (example_user 42), Commit, Refresh, Close] \<and>
   fst (create_user byte_sum example_ring example_makers commit_fails (example_user 42)) =
     [Opened ''shard_2'', Add (example_user 42), Commit, Rollback, Close] \<and>
   fst (create_user byte_sum example_ring example_makers rollback_fails (example_user 42)) =
     [Opened ''shard_2'', Add (example_user 42), Commit, Rollback, Close] \<and>
   fst (create_user byte_sum example_ring example_makers interrupted (example_user 42)) =
     [Opened ''shard_2'', Add (example_user 42), Commit, Close] \<and>
   count_list (fst (create_user byte_sum example_ring example_makers row_stored
                      (example_user 42))) Close = 1 \<and>
   count_list (fst (create_user byte_sum example_ring example_makers commit_fails
                      (example_user 42))) Close = 1 \<and>
   count_list (fst (create_user byte_sum example_ring example_makers rollback_fails
                      (example_user 42))) Close = 1 \<and>
   count_list (fst (create_user byte_sum example_ring example_makers interrupted
                      (example_user 42))) Close = 1 \<and>
   count_list (fst (get_user byte_sum example_ring example_makers interrupted
                      (user_id (example_user 42)))) Close = 1"
proof -
  have g: "get_node byte_sum example_ring (str_int (user_id (example_user 42))) = Inr ''shard_2''"
    by code_simp
  have m: "''shard_2'' \<in> set example_makers" by (simp add: example_makers_def)
  have t1: "fst (create_user byte_sum example_ring example_makers row_stored (example_user 42)) =
     [Opened ''shard_2'', Add (example_user 42), Commit, Refresh, Close]"
    by code_simp
  have t2: "fst (create_user byte_sum example_ring example_makers commit_fails (example_user 42)) =
     [Opened ''shard_2'', Add (example_user 42), Commit, Rollback, Close]"
    by code_simp
  have t3: "fst (create_user byte_sum example_ring example_makers rollback_fails (example_user 42)) =
     [Opened ''shard_2'', Add (example_user 42), Commit, Rollback, Close]"
    by code_simp
  have t4: "fst (create_user byte_sum example_ring example_makers interrupted (example_user 42)) =
     [Opened ''shard_2'', Add (example_user 42), Commit, Close]"
    by code_simp
  from session_closed_once [OF g m, of row_stored] session_closed_once [OF g m, of commit_fails]
       session_closed_once [OF g m, of rollback_fails] session_closed_once [OF g m, of interrupted]
       g m t1 t2 t3 t4
  show ?thesis by simp
qed






end
